theory Spec2Isabelle
  imports Main "HOL-Library.Word" "HOL-Library.Char_ord" "HOL-Library.List_Lexorder"
begin

section \<open>The version package of golib: parsing, sanitizing and ordering versions\<close>

text \<open>
  A shallow embedding of the Go package \<^verbatim>\<open>version\<close>.
  Go strings are byte sequences and are modelled as \<^typ>\<open>string\<close> (a list of
  \<^typ>\<open>char\<close>, one per byte), ordered bytewise and lexicographically as Go's \<^verbatim>\<open><\<close> on
  strings is. Go's \<^verbatim>\<open>int\<close> is modelled as a 64-bit word read as two's complement.
\<close>

subsection \<open>Library functions the package calls\<close>

type_synonym go_int = "64 word"

text \<open>
  \<^verbatim>\<open>strings.Index(s, sep)\<close>: the position of the first occurrence of \<open>sep\<close> in \<open>s\<close>,
  \<open>None\<close> for Go's \<open>-1\<close>.
\<close>

fun Index :: "string \<Rightarrow> string \<Rightarrow> nat option" where
  "Index [] sep = (if sep = [] then Some 0 else None)"
| "Index (c # cs) sep =
     (if take (length sep) (c # cs) = sep then Some 0
      else map_option Suc (Index cs sep))"

text \<open>
  The loop of \<^verbatim>\<open>strings.genSplit\<close> for a non-empty separator: cut at the first occurrence
  of \<open>sep\<close> while cuts are allowed, the rest is the last piece. The third argument is the
  number of cuts still allowed (\<open>n - 1\<close> in the Go source).
\<close>

fun genSplit :: "string \<Rightarrow> string \<Rightarrow> nat \<Rightarrow> string list" where
  "genSplit s sep 0 = [s]"
| "genSplit s sep (Suc k) =
     (case Index s sep of
        None \<Rightarrow> [s]
      | Some m \<Rightarrow> take m s # genSplit (drop (m + length sep) s) sep k)"

text \<open>
  \<^verbatim>\<open>strings.SplitN(s, sep, n)\<close> for \<open>n \<ge> 0\<close> and \<^verbatim>\<open>strings.Split(s, sep)\<close>, both for a
  non-empty separator (every call of the package passes \<^verbatim>\<open>"."\<close>, \<^verbatim>\<open>"-"\<close> or \<^verbatim>\<open>"+"\<close>).
  \<^verbatim>\<open>Split\<close> allows as many cuts as there are separators, and there are at most
  \<open>length s\<close> of them.
\<close>

definition SplitN :: "string \<Rightarrow> string \<Rightarrow> nat \<Rightarrow> string list" where
  "SplitN s sep n = (if n = 0 then [] else genSplit s sep (n - 1))"

definition Split :: "string \<Rightarrow> string \<Rightarrow> string list" where
  "Split s sep = genSplit s sep (length s)"

text \<open>\<^verbatim>\<open>strings.Join(a, sep)\<close>.\<close>

fun Join :: "string list \<Rightarrow> string \<Rightarrow> string" where
  "Join [] sep = []"
| "Join [x] sep = x"
| "Join (x # y # ys) sep = x @ sep @ Join (y # ys) sep"

text \<open>
  \<^verbatim>\<open>strconv.Atoi\<close>: an optional sign, then one or more decimal digits, and the value has
  to fit the 64-bit \<^verbatim>\<open>int\<close>. Every failure is a \<^verbatim>\<open>*strconv.NumError\<close>; the package
  only tests it against \<^verbatim>\<open>nil\<close>, so its text (syntax or range) is not modelled.
\<close>

datatype num_error = NumError

definition isDigit :: "char \<Rightarrow> bool" where
  "isDigit c = (CHR ''0'' \<le> c \<and> c \<le> CHR ''9'')"

definition digitVal :: "char \<Rightarrow> nat" where
  "digitVal c = of_char c - 48"

fun decimal :: "nat \<Rightarrow> string \<Rightarrow> nat option" where
  "decimal acc [] = Some acc"
| "decimal acc (c # cs) =
     (if isDigit c then decimal (10 * acc + digitVal c) cs else None)"

definition Atoi :: "string \<Rightarrow> num_error + go_int" where
  "Atoi s =
     (case s of
        [] \<Rightarrow> Inl NumError
      | c # cs \<Rightarrow>
          (let neg = (c = CHR ''-'');
               ds = (if c = CHR ''+'' \<or> c = CHR ''-'' then cs else s)
           in if ds = [] then Inl NumError
              else (case decimal 0 ds of
                      None \<Rightarrow> Inl NumError
                    | Some n \<Rightarrow>
                        if neg then (if n \<le> 2 ^ 63 then Inr (word_of_int (- int n))
                                     else Inl NumError)
                        else (if n < 2 ^ 63 then Inr (word_of_nat n)
                              else Inl NumError))))"

text \<open>
  The verb \<^verbatim>\<open>%d\<close> of \<^verbatim>\<open>fmt.Sprintf\<close>: the decimal digits, after a minus sign if
  negative. \<open>digitChar\<close> is only applied to numbers below ten.
\<close>

definition digitChar :: "nat \<Rightarrow> char" where
  "digitChar d = ''0123456789'' ! d"

fun natstr :: "nat \<Rightarrow> string" where
  "natstr n = (if n < 10 then [digitChar n] else natstr (n div 10) @ [digitChar (n mod 10)])"

declare natstr.simps [simp del]

definition Itoa :: "int \<Rightarrow> string" where
  "Itoa i = (if i < 0 then CHR ''-'' # natstr (nat (- i)) else natstr (nat i))"

subsection \<open>Errors\<close>

text \<open>
  Modelled from the spec: the declaration of the error codes of the version package is
  not among the sources at hand. The specification names a single error kind,
  \<open>IllegalFormat\<close>, and \<^verbatim>\<open>ErrIllegalVersionFormat\<close> is the one code the package passes to
  the errors package.
\<close>

datatype error_code = ErrIllegalVersionFormat

text \<open>
  The error box of the errors package: the wrapped error, if any, and the code.
  \<^verbatim>\<open>errors.New\<close> wraps nothing, \<^verbatim>\<open>errors.Annotate\<close> wraps the error passed, and
  \<^verbatim>\<open>errors.IsError\<close> compares the code.
\<close>

datatype error = ErrorBox (err: "num_error option") (code: error_code)

definition errors_New :: "error_code \<Rightarrow> error" where
  "errors_New c = ErrorBox None c"

definition errors_Annotate :: "num_error \<Rightarrow> error_code \<Rightarrow> error" where
  "errors_Annotate e c = ErrorBox (Some e) c"

definition IsError :: "error \<Rightarrow> error_code \<Rightarrow> bool" where
  "IsError e c = (code e = c)"

subsection \<open>The version value\<close>

definition Metadata :: string where
  "Metadata = ''+''"

record vsn =
  major :: go_int
  minor :: go_int
  patch :: go_int
  preRelease :: "string list"
  metadata :: "string list"

subsection \<open>validID\<close>

text \<open>
  The loop of \<^verbatim>\<open>validID\<close> over the runes of the identifier, with the state
  \<open>(out, letter, digit, hyphen)\<close>. Every rune the loop keeps is ASCII, and an ASCII byte of
  a Go string always decodes as the rune of that byte, so the loop over the bytes keeps
  the same characters.
\<close>

fun validID_step :: "string \<times> bool \<times> bool \<times> bool \<Rightarrow> char \<Rightarrow> string \<times> bool \<times> bool \<times> bool" where
  "validID_step (out, letter, digit, hyphen) r =
     (if CHR ''a'' \<le> r \<and> r \<le> CHR ''z'' then (out @ [r], True, digit, hyphen)
      else if CHR ''A'' \<le> r \<and> r \<le> CHR ''Z'' then (out @ [r], True, digit, hyphen)
      else if CHR ''0'' \<le> r \<and> r \<le> CHR ''9'' then (out @ [r], letter, True, hyphen)
      else if r = CHR ''-'' then (out @ [r], letter, digit, True)
      else (out, letter, digit, hyphen))"

text \<open>The loop \<^verbatim>\<open>for len(out) > 0 && out[0] == '0' { out = out[1:] }\<close>.\<close>

fun stripZeros :: "string \<Rightarrow> string" where
  "stripZeros [] = []"
| "stripZeros (c # cs) = (if c = CHR ''0'' then stripZeros cs else c # cs)"

definition validID :: "string \<Rightarrow> bool \<Rightarrow> string" where
  "validID ident numeric =
     (case foldl validID_step ([], False, False, False) ident of
        (out, letter, digit, hyphen) \<Rightarrow>
          if numeric \<and> digit \<and> \<not> letter \<and> \<not> hyphen
          then (let out' = stripZeros out in if length out' = 0 then ''0'' else out')
          else out)"

subsection \<open>New\<close>

text \<open>The loop of \<^verbatim>\<open>New\<close> over the passed identifiers, with the flag \<open>isPR\<close>.\<close>

fun New_loop :: "bool \<Rightarrow> vsn \<Rightarrow> string list \<Rightarrow> vsn" where
  "New_loop isPR v [] = v"
| "New_loop isPR v (prmd # prmds) =
     (if isPR then
        (if prmd = Metadata then New_loop False v prmds
         else New_loop isPR (v\<lparr>preRelease := preRelease v @ [validID prmd True]\<rparr>) prmds)
      else New_loop isPR (v\<lparr>metadata := metadata v @ [validID prmd False]\<rparr>) prmds)"

definition New :: "go_int \<Rightarrow> go_int \<Rightarrow> go_int \<Rightarrow> string list \<Rightarrow> vsn" where
  "New ma mi pa prmds =
     New_loop True
       \<lparr>major = (if sint ma < 0 then 0 else ma),
        minor = (if sint mi < 0 then 0 else mi),
        patch = (if sint pa < 0 then 0 else pa),
        preRelease = [], metadata = []\<rparr>
       prmds"

subsection \<open>Accessors, Less and String\<close>

text \<open>
  The interface \<^verbatim>\<open>Version\<close> has the one implementation \<^verbatim>\<open>vsn\<close>, so the version passed to
  \<^verbatim>\<open>Less\<close> is a \<open>vsn\<close> and the methods \<^verbatim>\<open>Major\<close>, \<^verbatim>\<open>Minor\<close> and \<^verbatim>\<open>Patch\<close> read its
  fields. The methods \<^verbatim>\<open>PreRelease\<close> and \<^verbatim>\<open>Metadata\<close> are \<open>vsn_PreRelease\<close> and
  \<open>vsn_Metadata\<close>, \<^verbatim>\<open>Less\<close> and \<^verbatim>\<open>String\<close> are \<open>vsn_Less\<close> and \<open>vsn_String\<close>.
\<close>

definition vsn_PreRelease :: "vsn \<Rightarrow> string" where
  "vsn_PreRelease v = Join (preRelease v) ''.''"

definition vsn_Metadata :: "vsn \<Rightarrow> string" where
  "vsn_Metadata v = Join (metadata v) ''.''"

definition numericLess :: "string \<Rightarrow> string \<Rightarrow> bool \<times> bool" where
  "numericLess a b =
     (case Atoi a of
        Inl e \<Rightarrow> (False, False)
      | Inr an \<Rightarrow>
          (case Atoi b of
             Inl e \<Rightarrow> (False, False)
           | Inr bn \<Rightarrow> (sint an < sint bn, True)))"

text \<open>
  The function \<^verbatim>\<open>less\<close> of the package, here \<open>lessSlices\<close> (\<open>less\<close> is the order of
  HOL). Its loop runs over the positions both slices have; the recursion drops one
  element of each per step, which leaves \<open>length a > length b\<close> unchanged for the test
  after the loop.
\<close>

fun lessSlices :: "string list \<Rightarrow> string list \<Rightarrow> bool" where
  "lessSlices (x # xs) (y # ys) =
     (case numericLess x y of
        (nl, ok) \<Rightarrow>
          if ok then nl
          else if x > y then False
          else if x < y then True
          else lessSlices xs ys)"
| "lessSlices a b = (length a > length b)"

definition vsn_Less :: "vsn \<Rightarrow> vsn \<Rightarrow> bool" where
  "vsn_Less v cv =
     (if sint (major v) < sint (major cv) then True
      else if sint (major v) > sint (major cv) then False
      else if sint (minor v) < sint (minor cv) then True
      else if sint (minor v) > sint (minor cv) then False
      else if sint (patch v) < sint (patch cv) then True
      else if sint (patch v) > sint (patch cv) then False
      else (let cvprs = vsn_PreRelease cv;
                cvpr = (if length cvprs > 0 then Split cvprs ''.'' else [])
            in lessSlices (preRelease v) cvpr))"

definition vsn_String :: "vsn \<Rightarrow> string" where
  "vsn_String v =
     (let vs = Itoa (sint (major v)) @ ''.'' @ Itoa (sint (minor v)) @ ''.'' @ Itoa (sint (patch v));
          vs = (if length (preRelease v) > 0 then vs @ ''-'' @ vsn_PreRelease v else vs);
          vs = (if length (metadata v) > 0 then vs @ Metadata @ vsn_Metadata v else vs)
      in vs)"

subsection \<open>Parse\<close>

definition splitVersionString :: "string \<Rightarrow> error + string list" where
  "splitVersionString vsnstr =
     (let npXm = SplitN vsnstr Metadata 2 in
      if length npXm = 1 then
        (let nXp = SplitN (npXm ! 0) ''-'' 2 in
         if length nXp = 1 then Inr [nXp ! 0, [], []]
         else if length nXp = 2 then Inr [nXp ! 0, nXp ! 1, []]
         else Inl (errors_New ErrIllegalVersionFormat))
      else if length npXm = 2 then
        (let nXp = SplitN (npXm ! 0) ''-'' 2 in
         if length nXp = 1 then Inr [nXp ! 0, [], npXm ! 1]
         else if length nXp = 2 then Inr [nXp ! 0, nXp ! 1, npXm ! 1]
         else Inl (errors_New ErrIllegalVersionFormat))
      else Inl (errors_New ErrIllegalVersionFormat))"

text \<open>
  The loop of \<^verbatim>\<open>parseNumberString\<close> over the components, with the index \<open>i\<close> and the
  slice \<open>vsn\<close> it fills.
\<close>

fun parseNumber_loop :: "nat \<Rightarrow> go_int list \<Rightarrow> string list \<Rightarrow> error + go_int list" where
  "parseNumber_loop i vsn [] = Inr vsn"
| "parseNumber_loop i vsn (nstr # nstrs) =
     (case Atoi nstr of
        Inl e \<Rightarrow> Inl (errors_Annotate e ErrIllegalVersionFormat)
      | Inr num \<Rightarrow>
          if sint num < 0 then Inl (errors_New ErrIllegalVersionFormat)
          else parseNumber_loop (Suc i) (vsn[i := num]) nstrs)"

definition parseNumberString :: "string \<Rightarrow> error + go_int list" where
  "parseNumberString nstr =
     (let nstrs = Split nstr ''.'' in
      if length nstrs < 1 \<or> length nstrs > 3 then Inl (errors_New ErrIllegalVersionFormat)
      else parseNumber_loop 0 [1, 0, 0] nstrs)"

definition Parse :: "string \<Rightarrow> error + vsn" where
  "Parse vsnstr =
     (case splitVersionString vsnstr of
        Inl e \<Rightarrow> Inl e
      | Inr npmstrs \<Rightarrow>
          (case parseNumberString (npmstrs ! 0) of
             Inl e \<Rightarrow> Inl e
           | Inr nums \<Rightarrow>
               (let prmds = (if npmstrs ! 1 \<noteq> [] then Split (npmstrs ! 1) ''.'' else []);
                    prmds = (if npmstrs ! 2 \<noteq> []
                             then prmds @ [Metadata] @ Split (npmstrs ! 2) ''.''
                             else prmds)
                in Inr (New (nums ! 0) (nums ! 1) (nums ! 2) prmds))))"

subsection \<open>The sanitizer as the specification words it\<close>

text \<open>
  The specification's sanitizer, written from its words and not from the code: keep the
  ASCII letters, digits and hyphens in their order; in numeric mode, when what is kept has
  a digit and neither a letter nor a hyphen, drop the leading zeros, and an empty rest
  becomes the single character \<open>0\<close>.
\<close>

definition isLetter :: "char \<Rightarrow> bool" where
  "isLetter c = ((CHR ''a'' \<le> c \<and> c \<le> CHR ''z'') \<or> (CHR ''A'' \<le> c \<and> c \<le> CHR ''Z''))"

definition permitted :: "char \<Rightarrow> bool" where
  "permitted c = (isLetter c \<or> isDigit c \<or> c = CHR ''-'')"

definition sanitize_spec :: "string \<Rightarrow> bool \<Rightarrow> string" where
  "sanitize_spec token numericMode =
     (let kept = filter permitted token in
      if numericMode \<and> list_ex isDigit kept \<and> \<not> list_ex isLetter kept
           \<and> \<not> list_ex (\<lambda>c. c = CHR ''-'') kept
      then (let stripped = dropWhile (\<lambda>c. c = CHR ''0'') kept
            in if stripped = [] then ''0'' else stripped)
      else kept)"

subsection \<open>The numeric segment and its components as the specification words them\<close>

text \<open>
  The numeric segment of a raw version string: the part before the first \<open>-\<close> of the
  part before the first \<open>+\<close>. A component of it fails integer parsing when
  \<^verbatim>\<open>strconv.Atoi\<close> returns an error, and parses to a negative integer when the
  integer returned is below zero.
\<close>

definition numericSegment :: "string \<Rightarrow> string" where
  "numericSegment raw = takeWhile (\<lambda>c. c \<noteq> CHR ''-'') (takeWhile (\<lambda>c. c \<noteq> CHR ''+'') raw)"

definition failsIntegerParsing :: "string \<Rightarrow> bool" where
  "failsIntegerParsing c = (case Atoi c of Inl e \<Rightarrow> True | Inr n \<Rightarrow> False)"

definition parsesNegative :: "string \<Rightarrow> bool" where
  "parsesNegative c = (case Atoi c of Inl e \<Rightarrow> False | Inr n \<Rightarrow> sint n < 0)"

subsection \<open>Identifiers of one kind\<close>


section \<open>Properties\<close>

subsection \<open>validID\<close>

lemma char_classes_disjoint:
  "isLetter c \<Longrightarrow> \<not> isDigit c" "isLetter c \<Longrightarrow> c \<noteq> CHR ''-''" "isDigit c \<Longrightarrow> c \<noteq> CHR ''-''"
  by (auto simp: isLetter_def isDigit_def less_eq_char_def)

lemma validID_loop:
  "foldl validID_step (out, letter, digit, hyphen) s =
     (out @ filter permitted s,
      letter \<or> list_ex isLetter s,
      digit \<or> list_ex isDigit s,
      hyphen \<or> list_ex (\<lambda>c. c = CHR ''-'') s)"
proof (induction s arbitrary: out letter digit hyphen)
  case Nil
  show ?case by simp
next
  case (Cons r s)
  show ?case
    using char_classes_disjoint [of r]
    by (auto simp: Cons.IH permitted_def isLetter_def isDigit_def)
qed

lemma stripZeros_dropWhile: "stripZeros s = dropWhile (\<lambda>c. c = CHR ''0'') s"
  by (induction s) auto

lemma list_ex_filter_permitted:
  "list_ex isLetter (filter permitted s) = list_ex isLetter s"
  "list_ex isDigit (filter permitted s) = list_ex isDigit s"
  "list_ex (\<lambda>c. c = CHR ''-'') (filter permitted s) = list_ex (\<lambda>c. c = CHR ''-'') s"
  by (auto simp: list_ex_iff permitted_def)

lemma validID_sanitize: "validID token numericMode = sanitize_spec token numericMode"
  by (simp add: validID_def sanitize_spec_def validID_loop stripZeros_dropWhile
      list_ex_filter_permitted Let_def)

text \<open>
  C8: for every input string and flag, \<open>validID\<close> returns the input filtered to the
  ASCII letters, digits and hyphens in their original order; in numeric mode, when the
  filtered string has at least one digit and no letter or hyphen, its leading zeros are
  stripped, and a string of zeros only becomes \<open>0\<close>, not the empty string.
\<close>

theorem validID_refines_spec: "validID token numericMode = sanitize_spec token numericMode"
  by (simp add: validID_def sanitize_spec_def validID_loop stripZeros_dropWhile
      list_ex_filter_permitted Let_def)

theorem validID_refines_spec_witness:
  "validID ''0.07!'' True = ''7'' \<and> validID ''000'' True = ''0''
   \<and> validID ''0.07!'' False = ''007'' \<and> validID ''0-7a'' True = ''0-7a''"
  using validID_refines_spec [of "''0.07!''" True] validID_refines_spec [of "''000''" True]
    validID_refines_spec [of "''0.07!''" False] validID_refines_spec [of "''0-7a''" True]
  by (simp add: sanitize_spec_def permitted_def isLetter_def isDigit_def)

subsection \<open>Splitting and joining\<close>

lemma Index_bound: "sep \<noteq> [] \<Longrightarrow> Index s sep = Some m \<Longrightarrow> m + length sep \<le> length s"
proof (induction s arbitrary: m)
  case Nil
  then show ?case by simp
next
  case (Cons c cs)
  show ?case
  proof (cases "take (length sep) (c # cs) = sep")
    case True
    from arg_cong [OF True, of length] have "length sep \<le> length (c # cs)"
      by simp
    with True Cons.prems show ?thesis by simp
  next
    case False
    with Cons.prems obtain m' where "Index cs sep = Some m'" "m = Suc m'"
      by auto
    with Cons.IH [of m'] Cons.prems(1) show ?thesis by simp
  qed
qed

lemma genSplit_fuel:
  "sep \<noteq> [] \<Longrightarrow> length s \<le> k \<Longrightarrow> length s \<le> k' \<Longrightarrow> genSplit s sep k = genSplit s sep k'"
proof (induction k arbitrary: s k')
  case 0
  then show ?case by (cases k') auto
next
  case (Suc k)
  show ?case
  proof (cases k')
    case 0
    with Suc.prems show ?thesis by simp
  next
    case (Suc j)
    show ?thesis
    proof (cases "Index s sep")
      case None
      then show ?thesis using Suc by simp
    next
      case (Some m)
      from Index_bound [OF Suc.prems(1) Some] Suc.prems(1)
      have "length (drop (m + length sep) s) < length s"
        by (cases sep) auto
      with Suc.prems \<open>k' = Suc j\<close>
      have "genSplit (drop (m + length sep) s) sep k = genSplit (drop (m + length sep) s) sep j"
        by (intro Suc.IH) auto
      with Some \<open>k' = Suc j\<close> show ?thesis by simp
    qed
  qed
qed

lemma Index_absent: "c \<notin> set s \<Longrightarrow> Index s [c] = None"
  by (induction s) auto

lemma Index_first: "c \<notin> set a \<Longrightarrow> Index (a @ c # b) [c] = Some (length a)"
  by (induction a) auto

lemma Split_absent: "c \<notin> set s \<Longrightarrow> Split s [c] = [s]"
  by (cases s) (auto simp: Split_def Index_absent)

lemma Split_first:
  assumes "c \<notin> set a" shows "Split (a @ c # b) [c] = a # Split b [c]"
proof -
  have "Split (a @ c # b) [c] = a # genSplit b [c] (length a + length b)"
    using assms by (simp add: Split_def Index_first)
  also have "genSplit b [c] (length a + length b) = genSplit b [c] (length b)"
    by (rule genSplit_fuel) auto
  finally show ?thesis by (simp add: Split_def)
qed

lemma SplitN2_absent: "c \<notin> set s \<Longrightarrow> SplitN s [c] 2 = [s]"
  by (simp add: SplitN_def numeral_2_eq_2 Index_absent)

lemma SplitN2_first: "c \<notin> set a \<Longrightarrow> SplitN (a @ c # b) [c] 2 = [a, b]"
  by (simp add: SplitN_def numeral_2_eq_2 Index_first)

lemma SplitN2_takeWhile:
  "SplitN s [c] 2 =
     (if c \<in> set s then [takeWhile (\<lambda>x. x \<noteq> c) s, tl (dropWhile (\<lambda>x. x \<noteq> c) s)] else [s])"
proof (cases "c \<in> set s")
  case False
  then show ?thesis by (simp add: SplitN2_absent)
next
  case True
  let ?a = "takeWhile (\<lambda>x. x \<noteq> c) s" and ?d = "dropWhile (\<lambda>x. x \<noteq> c) s"
  from True have "?d \<noteq> []" by simp
  moreover have "hd ?d = c" using True hd_dropWhile [of "\<lambda>x. x \<noteq> c" s] by auto
  ultimately have d: "?d = c # tl ?d" by (cases ?d) auto
  have "s = ?a @ c # tl ?d" using d takeWhile_dropWhile_id [of "\<lambda>x. x \<noteq> c" s] by simp
  moreover have "c \<notin> set ?a" by (auto dest: set_takeWhileD)
  ultimately have "SplitN s [c] 2 = [?a, tl ?d]" using SplitN2_first [of c ?a "tl ?d"] by simp
  with True show ?thesis by simp
qed

lemma Join_Nil_iff: "Join xs [c] = [] \<longleftrightarrow> xs = [] \<or> xs = [[]]"
  by (induction xs "[c]" rule: Join.induct) auto

lemma Split_Join:
  "xs \<noteq> [] \<Longrightarrow> \<forall>x\<in>set xs. c \<notin> set x \<Longrightarrow> Split (Join xs [c]) [c] = xs"
proof (induction xs "[c]" rule: Join.induct)
  case 1
  then show ?case by simp
next
  case (2 x)
  then show ?case by (simp add: Split_absent)
next
  case (3 x y ys)
  then show ?case by (simp add: Split_first)
qed

lemma set_Join: "set (Join xs sep) \<subseteq> \<Union> (set ` set xs) \<union> set sep"
  by (induction xs sep rule: Join.induct) auto

subsection \<open>Printing and parsing numbers\<close>

lemma digitChar_digit: "d < 10 \<Longrightarrow> isDigit (digitChar d) \<and> digitVal (digitChar d) = d"
proof -
  assume "d < 10"
  then have "d = 0 \<or> d = 1 \<or> d = 2 \<or> d = 3 \<or> d = 4 \<or> d = 5 \<or> d = 6 \<or> d = 7 \<or> d = 8 \<or> d = 9"
    by presburger
  then show ?thesis
    by (elim disjE) (simp_all add: digitChar_def isDigit_def digitVal_def)
qed

lemma decimal_snoc:
  "decimal acc (xs @ [c]) =
     (case decimal acc xs of
        None \<Rightarrow> None
      | Some m \<Rightarrow> if isDigit c then Some (10 * m + digitVal c) else None)"
  by (induction xs arbitrary: acc) auto

lemma decimal_natstr: "decimal 0 (natstr n) = Some n"
proof (induction n rule: natstr.induct)
  case (1 n)
  show ?case
  proof (cases "n < 10")
    case True
    then show ?thesis
      using digitChar_digit [of n] by (simp add: natstr.simps [of n])
  next
    case False
    have "n mod 10 < 10" by simp
    from digitChar_digit [OF this] "1" [OF False] False show ?thesis
      by (simp add: natstr.simps [of n] decimal_snoc)
  qed
qed

lemma natstr_digits: "c \<in> set (natstr n) \<Longrightarrow> isDigit c"
proof (induction n rule: natstr.induct)
  case (1 n)
  show ?case
  proof (cases "n < 10")
    case True
    with "1.prems" show ?thesis
      using digitChar_digit [of n] by (simp add: natstr.simps [of n])
  next
    case False
    have "n mod 10 < 10" by simp
    from digitChar_digit [OF this] "1.IH" [OF False] "1.prems" False show ?thesis
      by (auto simp add: natstr.simps [of n])
  qed
qed

lemma natstr_not_Nil: "natstr n \<noteq> []"
  by (simp add: natstr.simps [of n])

lemma isDigit_not_sign: "isDigit c \<Longrightarrow> c \<noteq> CHR ''-'' \<and> c \<noteq> CHR ''+'' \<and> c \<noteq> CHR ''.''"
  by (auto simp: isDigit_def less_eq_char_def)

lemma Atoi_natstr: "n < 2 ^ 63 \<Longrightarrow> Atoi (natstr n) = Inr (word_of_nat n)"
proof -
  assume n: "n < 2 ^ 63"
  obtain c cs where s: "natstr n = c # cs"
    using natstr_not_Nil [of n] by (cases "natstr n") auto
  then have "isDigit c" using natstr_digits [of c n] by simp
  then have "c \<noteq> CHR ''-''" "c \<noteq> CHR ''+''" using isDigit_not_sign by auto
  with s n decimal_natstr [of n] show ?thesis
    by (simp add: Atoi_def)
qed

lemma Atoi_Itoa:
  fixes w :: go_int
  assumes "0 \<le> sint w"
  shows "Atoi (Itoa (sint w)) = Inr w"
proof -
  have "sint w < 2 ^ 63" using sint_lt [of w] by simp
  with assms have "nat (sint w) < 2 ^ 63" by simp
  then have "Atoi (natstr (nat (sint w))) = Inr (word_of_nat (nat (sint w)))"
    by (rule Atoi_natstr)
  moreover have "(word_of_nat (nat (sint w)) :: go_int) = w"
    using assms by simp
  ultimately show ?thesis using assms by (simp add: Itoa_def)
qed

lemma Itoa_digits: "0 \<le> i \<Longrightarrow> c \<in> set (Itoa i) \<Longrightarrow> isDigit c"
  by (auto simp: Itoa_def dest: natstr_digits)

subsection \<open>What the sanitizer returns\<close>

lemma permitted_not_separator: "permitted c \<Longrightarrow> c \<noteq> CHR ''.'' \<and> c \<noteq> CHR ''+''"
  by (auto simp: permitted_def isLetter_def isDigit_def less_eq_char_def)

lemma validID_permitted: "c \<in> set (validID t b) \<Longrightarrow> permitted c"
proof -
  assume c: "c \<in> set (validID t b)"
  have zero: "permitted CHR ''0''" by (simp add: permitted_def isDigit_def)
  show ?thesis
  proof (cases "c \<in> set (filter permitted t)")
    case True
    then show ?thesis by simp
  next
    case False
    with c have "c = CHR ''0''"
      by (auto simp: validID_sanitize sanitize_spec_def Let_def split: if_splits
          dest: set_dropWhileD)
    with zero show ?thesis by simp
  qed
qed

lemma validID_not_Metadata: "validID t b \<noteq> Metadata"
proof
  assume "validID t b = Metadata"
  then have "CHR ''+'' \<in> set (validID t b)" by (simp add: Metadata_def)
  then show False using validID_permitted permitted_not_separator by blast
qed

lemma digits_only:
  assumes "\<forall>c\<in>set k. permitted c" "\<not> list_ex isLetter k" "\<not> list_ex (\<lambda>c. c = CHR ''-'') k"
  shows "\<forall>c\<in>set k. isDigit c"
  using assms by (auto simp: list_ex_iff permitted_def)

lemma sanitize_spec_fixed_plain:
  assumes "\<forall>c\<in>set k. permitted c"
    and "\<not> (b \<and> list_ex isDigit k \<and> \<not> list_ex isLetter k \<and> \<not> list_ex (\<lambda>c. c = CHR ''-'') k)"
  shows "sanitize_spec k b = k"
proof -
  from assms(1) have "filter permitted k = k" by (simp add: filter_id_conv)
  with assms(2) show ?thesis by (auto simp: sanitize_spec_def Let_def)
qed

lemma sanitize_spec_fixed_digits:
  assumes "r \<noteq> []" "\<forall>c\<in>set r. isDigit c" "hd r \<noteq> CHR ''0'' \<or> r = ''0''"
  shows "sanitize_spec r b = r"
proof -
  from assms(2) have f: "filter permitted r = r" by (simp add: filter_id_conv permitted_def)
  from assms(1,2) have ex: "list_ex isDigit r" by (cases r) auto
  from assms(2) have no: "\<not> list_ex isLetter r" "\<not> list_ex (\<lambda>c. c = CHR ''-'') r"
    using char_classes_disjoint by (auto simp: list_ex_iff)
  from assms(1,3) have d: "dropWhile (\<lambda>c. c = CHR ''0'') r = (if r = ''0'' then [] else r)"
    by (cases r) auto
  show ?thesis
    unfolding sanitize_spec_def Let_def f using ex no d assms(1) by simp
qed

lemma validID_idem: "validID (validID t b) b = validID t b"
proof -
  let ?k = "filter permitted t"
  let ?cond = "b \<and> list_ex isDigit ?k \<and> \<not> list_ex isLetter ?k \<and> \<not> list_ex (\<lambda>c. c = CHR ''-'') ?k"
  have "sanitize_spec (sanitize_spec t b) b = sanitize_spec t b"
  proof (cases ?cond)
    case False
    then have r: "sanitize_spec t b = ?k" by (auto simp: sanitize_spec_def Let_def)
    have "sanitize_spec ?k b = ?k"
      using False by (intro sanitize_spec_fixed_plain) auto
    with r show ?thesis by simp
  next
    case True
    let ?s = "dropWhile (\<lambda>c. c = CHR ''0'') ?k"
    have dig: "\<forall>c\<in>set ?k. isDigit c"
      using True by (intro digits_only) auto
    show ?thesis
    proof (cases "?s = []")
      case Nil: True
      with \<open>?cond\<close> have r: "sanitize_spec t b = ''0''" by (simp add: sanitize_spec_def Let_def)
      have "sanitize_spec ''0'' b = ''0''"
        by (rule sanitize_spec_fixed_digits) (simp_all add: isDigit_def)
      with r show ?thesis by simp
    next
      case False
      with \<open>?cond\<close> have r: "sanitize_spec t b = ?s" by (auto simp: sanitize_spec_def Let_def)
      have "\<forall>c\<in>set ?s. isDigit c" using dig by (meson set_dropWhileD)
      moreover have "hd ?s \<noteq> CHR ''0''" using False hd_dropWhile [of "\<lambda>c. c = CHR ''0''" ?k] by blast
      ultimately have "sanitize_spec ?s b = ?s"
        using False by (intro sanitize_spec_fixed_digits) auto
      with r show ?thesis by simp
    qed
  qed
  then show ?thesis by (simp add: validID_sanitize)
qed

subsection \<open>What New builds\<close>

lemma New_loop_metadata:
  "New_loop False v ids = v\<lparr>metadata := metadata v @ map (\<lambda>x. validID x False) ids\<rparr>"
  by (induction ids arbitrary: v) auto

lemma New_loop_preRelease:
  "New_loop True v ids =
     v\<lparr>preRelease := preRelease v @ map (\<lambda>x. validID x True) (takeWhile (\<lambda>x. x \<noteq> Metadata) ids),
       metadata := metadata v @ map (\<lambda>x. validID x False) (tl (dropWhile (\<lambda>x. x \<noteq> Metadata) ids))\<rparr>"
  by (induction ids arbitrary: v) (auto simp: New_loop_metadata)

lemma New_fields:
  "major (New ma mi pa ids) = (if sint ma < 0 then 0 else ma)"
  "minor (New ma mi pa ids) = (if sint mi < 0 then 0 else mi)"
  "patch (New ma mi pa ids) = (if sint pa < 0 then 0 else pa)"
  "preRelease (New ma mi pa ids) = map (\<lambda>x. validID x True) (takeWhile (\<lambda>x. x \<noteq> Metadata) ids)"
  "metadata (New ma mi pa ids) = map (\<lambda>x. validID x False) (tl (dropWhile (\<lambda>x. x \<noteq> Metadata) ids))"
  by (simp_all add: New_def New_loop_preRelease)

lemma New_nonneg:
  "0 \<le> sint (major (New ma mi pa ids))" "0 \<le> sint (minor (New ma mi pa ids))"
  "0 \<le> sint (patch (New ma mi pa ids))"
  by (simp_all add: New_fields)

lemma New_permitted:
  "x \<in> set (preRelease (New ma mi pa ids)) \<union> set (metadata (New ma mi pa ids)) \<Longrightarrow> c \<in> set x
   \<Longrightarrow> permitted c"
  by (auto simp: New_fields dest: validID_permitted)

subsection \<open>Splitting a version string\<close>

lemma takeWhile_first: "c \<notin> set a \<Longrightarrow> takeWhile (\<lambda>x. x \<noteq> c) (a @ c # b) = a"
  by (induction a) auto

lemma dropWhile_first: "c \<notin> set a \<Longrightarrow> dropWhile (\<lambda>x. x \<noteq> c) (a @ c # b) = c # b"
  by (induction a) auto

lemma takeWhile_absent: "c \<notin> set a \<Longrightarrow> takeWhile (\<lambda>x. x \<noteq> c) a = a"
  by (induction a) auto

lemma dropWhile_absent: "c \<notin> set a \<Longrightarrow> dropWhile (\<lambda>x. x \<noteq> c) a = []"
  by (induction a) auto

lemma splitVersionString_segments:
  "splitVersionString raw =
     Inr [numericSegment raw,
          tl (dropWhile (\<lambda>c. c \<noteq> CHR ''-'') (takeWhile (\<lambda>c. c \<noteq> CHR ''+'') raw)),
          tl (dropWhile (\<lambda>c. c \<noteq> CHR ''+'') raw)]"
proof -
  let ?np = "takeWhile (\<lambda>c. c \<noteq> CHR ''+'') raw"
  have plus: "SplitN raw Metadata 2 =
      (if CHR ''+'' \<in> set raw then [?np, tl (dropWhile (\<lambda>c. c \<noteq> CHR ''+'') raw)] else [raw])"
    unfolding Metadata_def by (rule SplitN2_takeWhile)
  have hyph: "SplitN s ''-'' 2 =
      (if CHR ''-'' \<in> set s
       then [takeWhile (\<lambda>c. c \<noteq> CHR ''-'') s, tl (dropWhile (\<lambda>c. c \<noteq> CHR ''-'') s)] else [s])" for s
    by (rule SplitN2_takeWhile)
  show ?thesis
  proof (cases "CHR ''+'' \<in> set raw")
    case True
    then show ?thesis
      by (cases "CHR ''-'' \<in> set ?np")
        (simp_all add: splitVersionString_def plus hyph numericSegment_def
          takeWhile_absent dropWhile_absent)
  next
    case False
    then have np: "?np = raw" "dropWhile (\<lambda>c. c \<noteq> CHR ''+'') raw = []"
      by (simp_all add: takeWhile_absent dropWhile_absent)
    from False show ?thesis
      by (cases "CHR ''-'' \<in> set raw")
        (simp_all add: splitVersionString_def plus hyph numericSegment_def np
          takeWhile_absent dropWhile_absent)
  qed
qed

subsection \<open>Parsing the numeric segment\<close>

lemma parseNumber_loop_fails:
  "(\<exists>e. parseNumber_loop i vsn comps = Inl e) \<longleftrightarrow>
     list_ex failsIntegerParsing comps \<or> list_ex parsesNegative comps"
  by (induction comps arbitrary: i vsn)
    (auto simp: failsIntegerParsing_def parsesNegative_def split: sum.splits)

lemma parseNumber_loop_ok:
  "map Atoi comps = map Inr ns \<Longrightarrow> \<forall>n\<in>set ns. 0 \<le> sint n \<Longrightarrow> i + length ns \<le> length vsn
   \<Longrightarrow> parseNumber_loop i vsn comps = Inr (take i vsn @ ns @ drop (i + length ns) vsn)"
proof (induction comps arbitrary: i vsn ns)
  case Nil
  then show ?case by simp
next
  case (Cons c comps)
  then obtain n ns' where ns: "ns = n # ns'" "Atoi c = Inr n" "map Atoi comps = map Inr ns'"
    by (cases ns) auto
  with Cons.prems have n: "\<not> sint n < 0" "i < length vsn" by auto
  have "parseNumber_loop (Suc i) (vsn[i := n]) comps =
      Inr (take (Suc i) (vsn[i := n]) @ ns' @ drop (Suc i + length ns') (vsn[i := n]))"
    using Cons.prems ns by (intro Cons.IH) auto
  moreover have "take (Suc i) (vsn[i := n]) = take i vsn @ [n]"
    using n(2) by (simp add: take_Suc_conv_app_nth)
  ultimately show ?case using ns n by simp
qed

lemma Split_not_Nil: "Split s sep \<noteq> []"
  by (cases "length s") (auto simp: Split_def split: option.splits)

lemma parseNumberString_fails:
  "(\<exists>e. parseNumberString seg = Inl e) \<longleftrightarrow>
     3 < length (Split seg ''.'') \<or> list_ex failsIntegerParsing (Split seg ''.'')
       \<or> list_ex parsesNegative (Split seg ''.'')"
  using Split_not_Nil [of seg "''.''"]
  by (auto simp: parseNumberString_def Let_def parseNumber_loop_fails)

lemma error_code_only: "IsError e ErrIllegalVersionFormat"
  by (cases "code e") (simp add: IsError_def)

lemma Parse_fails: "(\<exists>e. Parse raw = Inl e) \<longleftrightarrow> (\<exists>e. parseNumberString (numericSegment raw) = Inl e)"
  by (auto simp: Parse_def splitVersionString_segments Let_def split: sum.splits)

lemma parseNumberString_triple:
  assumes "0 \<le> sint a" "0 \<le> sint b" "0 \<le> sint c"
  shows "parseNumberString (Itoa (sint a) @ ''.'' @ Itoa (sint b) @ ''.'' @ Itoa (sint c)) = Inr [a, b, c]"
proof -
  let ?xs = "[Itoa (sint a), Itoa (sint b), Itoa (sint c)]"
  have "\<forall>x\<in>set ?xs. CHR ''.'' \<notin> set x"
    using assms isDigit_not_sign Itoa_digits by auto
  then have "Split (Join ?xs ''.'') ''.'' = ?xs"
    by (intro Split_Join) auto
  then have s: "Split (Itoa (sint a) @ ''.'' @ Itoa (sint b) @ ''.'' @ Itoa (sint c)) ''.'' = ?xs"
    by simp
  have "parseNumber_loop 0 [1, 0, 0] ?xs = Inr (take 0 [1, 0, 0] @ [a, b, c] @ drop (0 + length [a, b, c]) [1, 0, 0])"
    using assms by (intro parseNumber_loop_ok) (simp_all add: Atoi_Itoa)
  then show ?thesis
    unfolding parseNumberString_def Let_def s by simp
qed

subsection \<open>What Parse returns\<close>

lemma parseNumber_loop_Inr:
  assumes "parseNumber_loop i vsn comps = Inr nums" "i + length comps \<le> length vsn"
  shows "nums = take i vsn @ map (\<lambda>c. projr (Atoi c)) comps @ drop (i + length comps) vsn"
    and "\<forall>c\<in>set comps. 0 \<le> sint (projr (Atoi c))"
proof -
  let ?ns = "map (\<lambda>c. projr (Atoi c)) comps"
  from assms(1) have "\<not> (\<exists>e. parseNumber_loop i vsn comps = Inl e)" by simp
  then have ok: "\<forall>c\<in>set comps. \<not> failsIntegerParsing c \<and> \<not> parsesNegative c"
    unfolding parseNumber_loop_fails by (auto simp: list_ex_iff)
  have "Atoi c = Inr (projr (Atoi c))" if "c \<in> set comps" for c
    using ok that by (cases "Atoi c") (auto simp: failsIntegerParsing_def)
  then have m: "map Atoi comps = map Inr ?ns"
    by simp
  have "0 \<le> sint (projr (Atoi c))" if "c \<in> set comps" for c
    using ok that by (cases "Atoi c") (auto simp: failsIntegerParsing_def parsesNegative_def)
  then show nn: "\<forall>c\<in>set comps. 0 \<le> sint (projr (Atoi c))"
    by blast
  then have "\<forall>n\<in>set ?ns. 0 \<le> sint n" by simp
  from parseNumber_loop_ok [OF m this, of i vsn] assms
  show "nums = take i vsn @ ?ns @ drop (i + length comps) vsn" by simp
qed

lemma Parse_Inr_fields:
  assumes "Parse raw = Inr v"
  shows "\<exists>nums. parseNumberString (numericSegment raw) = Inr nums
           \<and> major v = (if sint (nums ! 0) < 0 then 0 else nums ! 0)
           \<and> minor v = (if sint (nums ! 1) < 0 then 0 else nums ! 1)
           \<and> patch v = (if sint (nums ! 2) < 0 then 0 else nums ! 2)"
  using assms
  by (auto simp: Parse_def splitVersionString_segments Let_def New_fields split: sum.splits)

lemma Parse_numbers:
  assumes "Parse raw = Inr v"
  shows "[major v, minor v, patch v] =
     (let ns = map (\<lambda>c. projr (Atoi c)) (Split (numericSegment raw) ''.'')
      in ns @ drop (length ns) [1, 0, 0])"
proof -
  let ?comps = "Split (numericSegment raw) ''.''"
  let ?ns = "map (\<lambda>c. projr (Atoi c)) ?comps"
  from Parse_Inr_fields [OF assms] obtain nums where
    p: "parseNumberString (numericSegment raw) = Inr nums"
    and f: "major v = (if sint (nums ! 0) < 0 then 0 else nums ! 0)"
      "minor v = (if sint (nums ! 1) < 0 then 0 else nums ! 1)"
      "patch v = (if sint (nums ! 2) < 0 then 0 else nums ! 2)"
    by blast
  from p have len: "length ?comps \<le> 3" and loop: "parseNumber_loop 0 [1, 0, 0] ?comps = Inr nums"
    by (auto simp: parseNumberString_def Let_def split: if_splits)
  from len have le: "0 + length ?comps \<le> length [1, 0, 0 :: go_int]" by simp
  from parseNumber_loop_Inr [OF loop le]
  have nums: "nums = ?ns @ drop (length ?ns) [1, 0, 0]" and nn: "\<forall>n\<in>set ?ns. 0 \<le> sint n"
    by simp_all
  have "\<forall>n\<in>set (drop (length ?ns) [1, 0, 0 :: go_int]). 0 \<le> sint n"
    by (auto dest!: in_set_dropD)
  with nn nums have all: "\<forall>n\<in>set nums. 0 \<le> sint n" by auto
  from nums len have "length nums = 3" by simp
  then obtain a b c where abc: "nums = [a, b, c]"
    by (auto simp: length_Suc_conv numeral_3_eq_3)
  with all f have "[major v, minor v, patch v] = nums" by simp
  with nums show ?thesis by (simp add: Let_def)
qed

lemmas version_defs = New_def validID_def Metadata_def Split_def SplitN_def Atoi_def
  isDigit_def digitVal_def Parse_def splitVersionString_def parseNumberString_def
  errors_New_def errors_Annotate_def

text \<open>
  C6: \<open>Parse\<close> fails exactly when the numeric segment (the part of the input before
  the first \<open>-\<close> of the part before the first \<open>+\<close>) splits on \<open>.\<close> into more than
  three components, or some component fails integer parsing, or some component parses to
  a negative integer; the error then has the code \<open>ErrIllegalVersionFormat\<close>, and every
  other input parses.
\<close>

theorem Parse_fails_exactly:
  "((\<exists>e. Parse raw = Inl e) \<longleftrightarrow>
      3 < length (Split (numericSegment raw) ''.'')
      \<or> list_ex failsIntegerParsing (Split (numericSegment raw) ''.'')
      \<or> list_ex parsesNegative (Split (numericSegment raw) ''.''))
   \<and> (\<forall>e. Parse raw = Inl e \<longrightarrow> IsError e ErrIllegalVersionFormat)
   \<and> ((\<exists>v. Parse raw = Inr v) \<longleftrightarrow> \<not> (\<exists>e. Parse raw = Inl e))"
proof (intro conjI)
  show "(\<exists>e. Parse raw = Inl e) \<longleftrightarrow>
      3 < length (Split (numericSegment raw) ''.'')
      \<or> list_ex failsIntegerParsing (Split (numericSegment raw) ''.'')
      \<or> list_ex parsesNegative (Split (numericSegment raw) ''.'')"
    by (simp only: Parse_fails parseNumberString_fails)
  show "\<forall>e. Parse raw = Inl e \<longrightarrow> IsError e ErrIllegalVersionFormat"
    by (simp add: error_code_only)
  show "(\<exists>v. Parse raw = Inr v) \<longleftrightarrow> \<not> (\<exists>e. Parse raw = Inl e)"
    by (cases "Parse raw") auto
qed

theorem Parse_fails_exactly_witness:
  "(\<exists>e. Parse ''1.2.3.4'' = Inl e) \<and> (\<exists>e. Parse ''abc'' = Inl e) \<and> (\<exists>e. Parse ''1..2'' = Inl e)
   \<and> (\<exists>v. Parse ''1.2-rc.1+b'' = Inr v) \<and> (\<exists>v. Parse ''7-!'' = Inr v)"
  using Parse_fails_exactly [of "''1.2.3.4''"] Parse_fails_exactly [of "''abc''"]
    Parse_fails_exactly [of "''1..2''"] Parse_fails_exactly [of "''1.2-rc.1+b''"]
    Parse_fails_exactly [of "''7-!''"]
  by (simp add: numericSegment_def Split_def failsIntegerParsing_def parsesNegative_def
      Atoi_def isDigit_def digitVal_def)

text \<open>
  C7: when the numeric segment has fewer than three components, \<open>Parse\<close> writes the
  components present, left to right, over the default triple \<open>(1, 0, 0)\<close>: \<open>5\<close> gives
  major 5, minor 0, patch 0, \<open>5.2\<close> gives major 5, minor 2, patch 0, and \<open>2\<close> gives
  major 2, minor 0, patch 0.
\<close>

theorem Parse_defaults:
  "(Parse raw = Inr v \<and> length (Split (numericSegment raw) ''.'') < 3 \<longrightarrow>
      [major v, minor v, patch v] =
        (let ns = map (\<lambda>c. projr (Atoi c)) (Split (numericSegment raw) ''.'')
         in ns @ drop (length ns) [1, 0, 0]))
   \<and> Parse ''5'' = Inr \<lparr>major = 5, minor = 0, patch = 0, preRelease = [], metadata = []\<rparr>
   \<and> Parse ''5.2'' = Inr \<lparr>major = 5, minor = 2, patch = 0, preRelease = [], metadata = []\<rparr>
   \<and> Parse ''2'' = Inr \<lparr>major = 2, minor = 0, patch = 0, preRelease = [], metadata = []\<rparr>"
proof (intro conjI impI)
  assume "Parse raw = Inr v \<and> length (Split (numericSegment raw) ''.'') < 3"
  then show "[major v, minor v, patch v] =
        (let ns = map (\<lambda>c. projr (Atoi c)) (Split (numericSegment raw) ''.'')
         in ns @ drop (length ns) [1, 0, 0])"
    using Parse_numbers by blast
qed (simp_all add: version_defs)

theorem Parse_defaults_witness:
  "Parse ''5.2-rc'' = Inr (New 5 2 0 [''rc'']) \<and> length (Split (numericSegment ''5.2-rc'') ''.'') < 3
   \<and> [major (New 5 2 0 [''rc'']), minor (New 5 2 0 [''rc'']), patch (New 5 2 0 [''rc''])] = [5, 2, 0]"
proof -
  have p: "Parse ''5.2-rc'' = Inr (New 5 2 0 [''rc''])"
    by (simp add: version_defs)
  have l: "length (Split (numericSegment ''5.2-rc'') ''.'') < 3"
    by (simp add: numericSegment_def Split_def)
  from Parse_defaults [of "''5.2-rc''" "New 5 2 0 [''rc'']"] p l
  have "[major (New 5 2 0 [''rc'']), minor (New 5 2 0 [''rc'']), patch (New 5 2 0 [''rc''])] =
        (let ns = map (\<lambda>c. projr (Atoi c)) (Split (numericSegment ''5.2-rc'') ''.'')
         in ns @ drop (length ns) [1, 0, 0])"
    by blast
  also have "\<dots> = [5, 2, 0]"
    by (simp add: numericSegment_def Split_def Atoi_def isDigit_def digitVal_def)
  finally show ?thesis using p l by simp
qed

subsection \<open>Rendering and parsing again\<close>

lemma resplit:
  assumes "\<forall>x\<in>set P. CHR ''.'' \<notin> set x"
  shows "(if Join P ''.'' \<noteq> [] then Split (Join P ''.'') ''.'' else []) = (if P = [[]] then [] else P)"
proof (cases "P = [] \<or> P = [[]]")
  case True
  then show ?thesis by auto
next
  case False
  then have "Join P ''.'' \<noteq> []" by (simp add: Join_Nil_iff)
  moreover have "Split (Join P ''.'') ''.'' = P"
    using False assms by (intro Split_Join) auto
  ultimately show ?thesis using False by simp
qed

lemma New_of_sanitized:
  assumes "0 \<le> sint a" "0 \<le> sint b" "0 \<le> sint c"
    and P: "\<forall>x\<in>set P. x \<noteq> Metadata \<and> validID x True = x"
    and M: "\<forall>x\<in>set M. validID x False = x"
  shows "New a b c (P @ (if M \<noteq> [] then [Metadata] @ M else [])) =
           \<lparr>major = a, minor = b, patch = c, preRelease = P, metadata = M\<rparr>"
proof -
  let ?ids = "P @ (if M \<noteq> [] then [Metadata] @ M else [])"
  have tw: "takeWhile (\<lambda>x. x \<noteq> Metadata) ?ids = P"
    using P by (auto simp: takeWhile_eq_all_conv)
  have dw: "tl (dropWhile (\<lambda>x. x \<noteq> Metadata) ?ids) = M"
    using P by (auto simp: dropWhile_eq_Nil_conv)
  have "preRelease (New a b c ?ids) = P"
    using P unfolding New_fields tw by (simp add: map_idI)
  moreover have "metadata (New a b c ?ids) = M"
    using M unfolding New_fields dw by (simp add: map_idI)
  moreover have "major (New a b c ?ids) = a" "minor (New a b c ?ids) = b" "patch (New a b c ?ids) = c"
    using assms(1-3) by (simp_all add: New_fields)
  ultimately show ?thesis by simp
qed

lemma Join_permitted:
  assumes "\<forall>x\<in>set P. \<forall>c\<in>set x. permitted c"
  shows "CHR ''+'' \<notin> set (Join P ''.'')"
proof
  assume "CHR ''+'' \<in> set (Join P ''.'')"
  with set_Join [of P "''.''"] obtain x where "x \<in> set P" "CHR ''+'' \<in> set x" by auto
  with assms permitted_not_separator show False by blast
qed

lemma cut_optional:
  assumes "c \<notin> set a"
  shows "takeWhile (\<lambda>x. x \<noteq> c) (a @ (if q then c # b else [])) = a"
    and "tl (dropWhile (\<lambda>x. x \<noteq> c) (a @ (if q then c # b else []))) = (if q then b else [])"
  using assms by (cases q; simp add: takeWhile_first takeWhile_absent dropWhile_first dropWhile_absent)+

lemma vsn_String_segments:
  assumes nn: "0 \<le> sint (major v)" "0 \<le> sint (minor v)" "0 \<le> sint (patch v)"
    and P: "\<forall>x\<in>set (preRelease v). \<forall>c\<in>set x. permitted c"
  shows "numericSegment (vsn_String v) =
           Itoa (sint (major v)) @ ''.'' @ Itoa (sint (minor v)) @ ''.'' @ Itoa (sint (patch v))"
    and "tl (dropWhile (\<lambda>c. c \<noteq> CHR ''-'') (takeWhile (\<lambda>c. c \<noteq> CHR ''+'') (vsn_String v))) =
           Join (preRelease v) ''.''"
    and "tl (dropWhile (\<lambda>c. c \<noteq> CHR ''+'') (vsn_String v)) = Join (metadata v) ''.''"
proof -
  let ?N = "Itoa (sint (major v)) @ ''.'' @ Itoa (sint (minor v)) @ ''.'' @ Itoa (sint (patch v))"
  let ?JP = "Join (preRelease v) ''.''" and ?JM = "Join (metadata v) ''.''"
  let ?A = "if preRelease v \<noteq> [] then CHR ''-'' # ?JP else []"
  let ?B = "if metadata v \<noteq> [] then CHR ''+'' # ?JM else []"
  have s: "vsn_String v = (?N @ ?A) @ ?B"
    by (simp add: vsn_String_def vsn_PreRelease_def vsn_Metadata_def Metadata_def Let_def)
  have N: "CHR ''+'' \<notin> set ?N" "CHR ''-'' \<notin> set ?N"
    using nn isDigit_not_sign Itoa_digits by auto
  have A: "CHR ''+'' \<notin> set (?N @ ?A)"
    using N(1) Join_permitted [OF P] by simp
  have tw: "takeWhile (\<lambda>c. c \<noteq> CHR ''+'') (vsn_String v) = ?N @ ?A"
    unfolding s by (rule cut_optional(1) [OF A])
  have JP0: "(if preRelease v \<noteq> [] then ?JP else []) = ?JP"
    and JM0: "(if metadata v \<noteq> [] then ?JM else []) = ?JM"
    by simp_all
  show "numericSegment (vsn_String v) = ?N"
    unfolding numericSegment_def tw by (rule cut_optional(1) [OF N(2)])
  show "tl (dropWhile (\<lambda>c. c \<noteq> CHR ''-'') (takeWhile (\<lambda>c. c \<noteq> CHR ''+'') (vsn_String v))) = ?JP"
    unfolding tw using cut_optional(2) [OF N(2), of "preRelease v \<noteq> []" ?JP] JP0 by simp
  show "tl (dropWhile (\<lambda>c. c \<noteq> CHR ''+'') (vsn_String v)) = ?JM"
    unfolding s using cut_optional(2) [OF A, of "metadata v \<noteq> []" ?JM] JM0 by simp
qed

lemma Parse_vsn_String:
  assumes v: "v = New ma mi pa ids"
  shows "Parse (vsn_String v) =
           Inr (v\<lparr>preRelease := (if preRelease v = [[]] then [] else preRelease v),
                 metadata := (if metadata v = [[]] then [] else metadata v)\<rparr>)"
proof -
  let ?P = "preRelease v" and ?M = "metadata v"
  let ?P' = "if ?P = [[]] then [] else ?P" and ?M' = "if ?M = [[]] then [] else ?M"
  have nn: "0 \<le> sint (major v)" "0 \<le> sint (minor v)" "0 \<le> sint (patch v)"
    unfolding v by (rule New_nonneg)+
  have perm: "\<forall>x\<in>set ?P \<union> set ?M. \<forall>c\<in>set x. permitted c"
    unfolding v using New_permitted by blast
  then have P: "\<forall>x\<in>set ?P. \<forall>c\<in>set x. permitted c" by blast
  have dots: "\<forall>x\<in>set ?P. CHR ''.'' \<notin> set x" "\<forall>x\<in>set ?M. CHR ''.'' \<notin> set x"
    using perm permitted_not_separator by blast+
  have fixP: "\<forall>x\<in>set ?P'. x \<noteq> Metadata \<and> validID x True = x"
    unfolding v by (auto simp: New_fields validID_not_Metadata validID_idem)
  have fixM: "\<forall>x\<in>set ?M'. validID x False = x"
    unfolding v by (auto simp: New_fields validID_idem)
  note seg = vsn_String_segments [OF nn P]
  have num: "parseNumberString (numericSegment (vsn_String v)) = Inr [major v, minor v, patch v]"
    unfolding seg(1) using nn by (rule parseNumberString_triple)
  have M'Nil: "?M' \<noteq> [] \<longleftrightarrow> Join ?M ''.'' \<noteq> []"
    by (auto simp: Join_Nil_iff)
  have "Parse (vsn_String v) =
      Inr (New (major v) (minor v) (patch v)
        ((if Join ?P ''.'' \<noteq> [] then Split (Join ?P ''.'') ''.'' else []) @
         (if Join ?M ''.'' \<noteq> [] then [Metadata] @ Split (Join ?M ''.'') ''.'' else [])))"
    by (simp add: Parse_def splitVersionString_segments seg(2,3) num Let_def)
  also have "(if Join ?M ''.'' \<noteq> [] then [Metadata] @ Split (Join ?M ''.'') ''.'' else []) =
      (if ?M' \<noteq> [] then [Metadata] @ ?M' else [])"
    using resplit [OF dots(2)] M'Nil by auto
  also have "(if Join ?P ''.'' \<noteq> [] then Split (Join ?P ''.'') ''.'' else []) = ?P'"
    by (rule resplit [OF dots(1)])
  also have "New (major v) (minor v) (patch v) (?P' @ (if ?M' \<noteq> [] then [Metadata] @ ?M' else [])) =
      \<lparr>major = major v, minor = minor v, patch = patch v, preRelease = ?P', metadata = ?M'\<rparr>"
    using nn fixP fixM by (rule New_of_sanitized)
  finally show ?thesis by simp
qed

lemma Parse_is_New: "Parse raw = Inr v \<Longrightarrow> \<exists>a b c ids. v = New a b c ids"
  by (auto simp: Parse_def Let_def split: sum.splits)

text \<open>
  C10: for every version \<open>New\<close> builds, from any integers and any identifier tokens,
  \<open>Parse\<close> of its rendering succeeds, also when identifiers sanitize to the empty string.
\<close>

theorem Parse_vsn_String_succeeds: "\<exists>v. Parse (vsn_String (New ma mi pa ids)) = Inr v"
  using Parse_vsn_String [of "New ma mi pa ids" ma mi pa ids] by simp

theorem Parse_vsn_String_succeeds_witness:
  "(\<exists>v. Parse (vsn_String (New (- 4) 0 7 [''!'', '''', ''+'', ''..''])) = Inr v)
   \<and> vsn_String (New (- 4) 0 7 [''!'', '''', ''+'', ''..'']) = ''0.0.7-.+''"
  using Parse_vsn_String_succeeds [of "- 4" 0 7 "[''!'', '''', ''+'', ''..'']"]
  by (simp add: version_defs vsn_String_def vsn_PreRelease_def vsn_Metadata_def Itoa_def
      digitChar_def natstr.simps)

text \<open>
  C5 fails as stated: a version built from one token that sanitizes to the empty string
  has the pre-release sequence of one empty identifier, its rendering ends with the
  hyphen, and parsing the rendering gives a version with no pre-release identifier.
\<close>

theorem roundtrip_counterexample:
  "preRelease (New 1 0 0 ['''']) = ['''']
   \<and> Parse (vsn_String (New 1 0 0 [''''])) =
       Inr \<lparr>major = 1, minor = 0, patch = 0, preRelease = [], metadata = []\<rparr>"
  by (simp add: version_defs vsn_String_def vsn_PreRelease_def vsn_Metadata_def Itoa_def
      digitChar_def natstr.simps)

text \<open>
  C5, as the code has it: the round trip holds for every integer triple and every list
  of identifier tokens, unless the sanitized pre-release sequence or the sanitized
  metadata sequence is the single empty identifier.
\<close>

theorem roundtrip_sanitized:
  assumes "preRelease (New ma mi pa ids) \<noteq> ['''']" "metadata (New ma mi pa ids) \<noteq> ['''']"
  shows "Parse (vsn_String (New ma mi pa ids)) = Inr (New ma mi pa ids)"
  using Parse_vsn_String [of "New ma mi pa ids" ma mi pa ids] assms by simp

theorem roundtrip_sanitized_witness:
  "preRelease (New 3 1 4 [''rc.1'', ''007'', '''', ''+'', ''b-01'', ''x y'']) \<noteq> ['''']
   \<and> metadata (New 3 1 4 [''rc.1'', ''007'', '''', ''+'', ''b-01'', ''x y'']) \<noteq> ['''']
   \<and> vsn_String (New 3 1 4 [''rc.1'', ''007'', '''', ''+'', ''b-01'', ''x y'']) = ''3.1.4-rc1.7.+b-01.xy''
   \<and> Parse ''3.1.4-rc1.7.+b-01.xy'' = Inr (New 3 1 4 [''rc.1'', ''007'', '''', ''+'', ''b-01'', ''x y''])"
proof -
  let ?v = "New 3 1 4 [''rc.1'', ''007'', '''', ''+'', ''b-01'', ''x y'']"
  have p: "preRelease ?v \<noteq> ['''']" and m: "metadata ?v \<noteq> ['''']"
    by (simp_all add: New_def validID_def Metadata_def)
  have s: "vsn_String ?v = ''3.1.4-rc1.7.+b-01.xy''"
    by (simp add: New_def validID_def Metadata_def vsn_String_def vsn_PreRelease_def
        vsn_Metadata_def Itoa_def digitChar_def natstr.simps)
  from roundtrip_sanitized [OF p m] s p m show ?thesis by simp
qed

text \<open>
  C9 fails as stated: a token without a permitted character sanitizes to the empty
  string, and \<open>New\<close> and \<open>Parse\<close> keep it as an identifier.
\<close>

theorem identifier_nonempty_counterexample:
  "preRelease (New 1 0 0 [''!'']) = [''''] \<and> [] \<in> set (preRelease (New 1 0 0 [''!'']))
   \<and> Parse ''1.0.0-a..b+!'' =
       Inr \<lparr>major = 1, minor = 0, patch = 0, preRelease = [''a'', '''', ''b''], metadata = ['''']\<rparr>"
  by (simp add: version_defs)

text \<open>
  C9, as the code has it: every pre-release and metadata identifier of a version built by
  \<open>New\<close> or \<open>Parse\<close> consists of ASCII letters, digits and hyphens only; it may be the
  empty string.
\<close>

theorem identifiers_permitted:
  assumes "v = New ma mi pa ids \<or> Parse raw = Inr v"
    and "x \<in> set (preRelease v) \<union> set (metadata v)" and "c \<in> set x"
  shows "permitted c"
proof -
  from assms(1) Parse_is_New obtain a b c' ids' where "v = New a b c' ids'" by blast
  with assms(2,3) New_permitted show ?thesis by blast
qed

theorem identifiers_permitted_witness:
  "Parse ''1.0-r_c.1+b!-2'' = Inr (New 1 0 0 [''rc'', ''1'', ''+'', ''b-2''])
   \<and> ''b-2'' \<in> set (preRelease (New 1 0 0 [''rc'', ''1'', ''+'', ''b-2''])) \<union> set (metadata (New 1 0 0 [''rc'', ''1'', ''+'', ''b-2'']))
   \<and> CHR ''-'' \<in> set ''b-2'' \<and> permitted CHR ''-''"
proof -
  let ?v = "New 1 0 0 [''rc'', ''1'', ''+'', ''b-2'']"
  have p: "Parse ''1.0-r_c.1+b!-2'' = Inr ?v"
    by (simp add: version_defs)
  then have h1: "?v = New 1 0 0 [''rc'', ''1'', ''+'', ''b-2''] \<or> Parse ''1.0-r_c.1+b!-2'' = Inr ?v"
    by simp
  have h2: "''b-2'' \<in> set (preRelease ?v) \<union> set (metadata ?v)"
    by (simp add: New_def validID_def Metadata_def)
  have h3: "CHR ''-'' \<in> set ''b-2''" by simp
  from identifiers_permitted [OF h1 h2 h3] p h2 h3 show ?thesis by simp
qed

subsection \<open>The order on pre-release sequences\<close>

lemma numericLess_text:
  "failsIntegerParsing x \<or> failsIntegerParsing y \<Longrightarrow> numericLess x y = (False, False)"
  by (auto simp: numericLess_def failsIntegerParsing_def split: sum.splits)

lemma numericLess_numbers:
  "\<not> failsIntegerParsing x \<Longrightarrow> \<not> failsIntegerParsing y \<Longrightarrow>
     numericLess x y = (sint (projr (Atoi x)) < sint (projr (Atoi y)), True)"
  by (auto simp: numericLess_def failsIntegerParsing_def split: sum.splits)

lemma lessSlices_irrefl: "\<not> lessSlices a a"
proof (induction a)
  case Nil
  show ?case by simp
next
  case (Cons x xs)
  show ?case
  proof (cases "failsIntegerParsing x")
    case True
    with Cons show ?thesis by (simp add: numericLess_text)
  next
    case False
    then show ?thesis by (simp add: numericLess_numbers)
  qed
qed



lemma vsn_Less_New:
  assumes "cv = New ma mi pa ids"
  shows "vsn_Less v cv =
     (if sint (major v) < sint (major cv) then True
      else if sint (major v) > sint (major cv) then False
      else if sint (minor v) < sint (minor cv) then True
      else if sint (minor v) > sint (minor cv) then False
      else if sint (patch v) < sint (patch cv) then True
      else if sint (patch v) > sint (patch cv) then False
      else lessSlices (preRelease v) (if preRelease cv = [[]] then [] else preRelease cv))"
proof -
  have "\<forall>x\<in>set (preRelease cv). CHR ''.'' \<notin> set x"
    unfolding assms using New_permitted permitted_not_separator by blast
  from resplit [OF this] show ?thesis
    by (simp add: vsn_Less_def vsn_PreRelease_def Let_def)
qed

lemma vsn_Less_irrefl_unless_empty_identifier:
  assumes "v = New ma mi pa ids" "preRelease v \<noteq> ['''']"
  shows "\<not> vsn_Less v v"
  using assms(2) by (simp add: vsn_Less_New [OF assms(1)] lessSlices_irrefl)


subsection \<open>Less on versions\<close>

lemmas order_defs = vsn_Less_def New_def vsn_PreRelease_def validID_def Metadata_def Split_def
  numericLess_def Atoi_def isDigit_def digitVal_def

text \<open>
  C1: \<open>Less\<close> is meant to be irreflexive. The code at a version built from one identifier
  that sanitizes to the empty string: the version is less than itself.
\<close>

theorem Less_reflexive_at_empty_identifier:
  "preRelease (New 1 0 0 [''!'']) = [''''] \<and> vsn_Less (New 1 0 0 [''!'']) (New 1 0 0 [''!''])"
  by (simp add: order_defs)

text \<open>
  C2: equal identifiers at a position are meant to pass the comparison on to the next
  position. The code at two sequences that start with the same number: the comparison
  stops at the first position with the answer false, in both directions, while it goes
  on to the second position when the first identifiers are the same text.
\<close>

theorem less_stops_at_equal_numbers:
  "\<not> vsn_Less (New 1 0 0 [''1'', ''2'']) (New 1 0 0 [''1'', ''3''])
   \<and> \<not> vsn_Less (New 1 0 0 [''1'', ''3'']) (New 1 0 0 [''1'', ''2''])
   \<and> vsn_Less (New 1 0 0 [''x'', ''2'']) (New 1 0 0 [''x'', ''3''])"
  by (simp add: order_defs)

text \<open>
  C4: with equal numbers and pre-release sequences that agree on the positions both
  have, the longer sequence is meant to be the lesser version. The code at sequences that
  agree on a number: neither version is less.
\<close>

theorem longer_not_less_after_equal_number:
  "\<not> vsn_Less (New 1 0 0 [''1'', ''x'']) (New 1 0 0 [''1''])
   \<and> \<not> vsn_Less (New 1 0 0 [''1'']) (New 1 0 0 [''1'', ''x''])
   \<and> vsn_Less (New 1 0 0 [''alpha'']) (New 1 0 0 [])"
  by (simp add: order_defs)




end
